theory Spec2Isabelle
  imports Main "HOL-Library.Sublist" "HOL-Library.Code_Target_Nat"
begin

section \<open>Text: Python strings, splitting and joining on the newline\<close>

text \<open>
  A Python \<open>str\<close> is a sequence of Unicode code points, so a code point is a natural
  number and a string a list of them. \<open>ascii\<close> reads an ASCII literal as such a string.
\<close>

type_synonym codepoint = nat
type_synonym str = "codepoint list"

definition ascii :: "string \<Rightarrow> str" where
  "ascii s = map of_char s"

definition newline :: codepoint where
  "newline = 10"

definition lparen :: codepoint where
  "lparen = 40"

definition rparen :: codepoint where
  "rparen = 41"

text \<open>
  \<open>content.split('\n')\<close>: one piece per newline, plus one; the pieces hold no newline and
  the empty string gives one empty piece.
\<close>

fun split_nl :: "str \<Rightarrow> str list" where
  "split_nl [] = [[]]"
| "split_nl (c # cs) =
     (let pieces = split_nl cs
      in if c = newline then [] # pieces else (c # hd pieces) # tl pieces)"

text \<open>\<open>'\n'.join(new_lines)\<close>: the newline stands between the pieces, not after the last.\<close>

fun join_nl :: "str list \<Rightarrow> str" where
  "join_nl [] = []"
| "join_nl [l] = l"
| "join_nl (l # m # ls) = l @ newline # join_nl (m # ls)"

section \<open>The pattern\<close>

text \<open>
  The whitespace class \<open>\s\<close> of a Python 3 pattern over \<open>str\<close>: the code points for
  which \<open>str.isspace\<close> holds.
\<close>

definition is_space :: "codepoint \<Rightarrow> bool" where
  "is_space c =
     ((9 \<le> c \<and> c \<le> 13) \<or> (28 \<le> c \<and> c \<le> 32) \<or> c = 133 \<or> c = 160 \<or> c = 5760 \<or>
      (8192 \<le> c \<and> c \<le> 8202) \<or> c = 8232 \<or> c = 8233 \<or> c = 8239 \<or> c = 8287 \<or> c = 12288)"

fun strip_prefix :: "str \<Rightarrow> str \<Rightarrow> str option" where
  "strip_prefix [] s = Some s"
| "strip_prefix (p # ps) [] = None"
| "strip_prefix (p # ps) (c # cs) = (if p = c then strip_prefix ps cs else None)"

text \<open>
  The pattern \<open>\s*console\.(log|debug|info)\s*\(\<close> tried at the start of \<open>s\<close>. Each
  \<open>\s*\<close> is followed by an atom that is no whitespace, so a match takes the whole run
  of whitespace there; no keyword of the alternation is a prefix of another.
\<close>

definition match_here :: "str \<Rightarrow> bool" where
  "match_here s =
     (case strip_prefix (ascii ''console.'') (dropWhile is_space s) of
        None \<Rightarrow> False
      | Some r \<Rightarrow>
          list_ex
            (\<lambda>kw. case strip_prefix kw r of
                    None \<Rightarrow> False
                  | Some r' \<Rightarrow>
                      (case dropWhile is_space r' of
                         [] \<Rightarrow> False
                       | c # _ \<Rightarrow> c = lparen))
            [ascii ''log'', ascii ''debug'', ascii ''info''])"

text \<open>\<open>re.search\<close>: the pattern is tried at every position of the line, the end included.\<close>

fun re_search :: "str \<Rightarrow> bool" where
  "re_search [] = match_here []"
| "re_search (c # cs) = (match_here (c # cs) \<or> re_search cs)"

text \<open>\<open>line.count('(') - line.count(')')\<close>, over Python's unbounded integers.\<close>

definition paren_delta :: "str \<Rightarrow> int" where
  "paren_delta line = int (count_list line lparen) - int (count_list line rparen)"

section \<open>The excision scan\<close>

text \<open>
  The inner loop of \<open>remove_console_logs\<close>:
  \<^verbatim>\<open>
  while paren_count > 0 and j < len(lines) - 1:
      j += 1
      if j < len(lines):
          paren_count += lines[j].count('(') - lines[j].count(')')
  \<close>
  It returns the two loop variables as they stand when the loop is left.
\<close>

function skip_statement :: "str list \<Rightarrow> int \<Rightarrow> nat \<Rightarrow> int \<times> nat" where
  "skip_statement lines paren_count j =
     (if paren_count > 0 \<and> int j < int (length lines) - 1 then
        (let j' = j + 1;
             paren_count' =
               (if j' < length lines then paren_count + paren_delta (lines ! j')
                else paren_count)
         in skip_statement lines paren_count' j')
      else (paren_count, j))"
  by pat_completeness auto
termination
  by (relation "measure (\<lambda>(lines, paren_count, j). length lines - j)") auto

declare skip_statement.simps [simp del]

lemma skip_statement_step:
  assumes "paren_count > 0" and "j + 1 < length lines"
  shows "skip_statement lines paren_count j =
    skip_statement lines (paren_count + paren_delta (lines ! (j + 1))) (j + 1)"
  using assms by (subst skip_statement.simps) (simp add: Let_def)

lemma skip_statement_stop:
  assumes "paren_count \<le> 0 \<or> length lines \<le> j + 1"
  shows "skip_statement lines paren_count j = (paren_count, j)"
  using assms by (subst skip_statement.simps) auto

lemma skip_statement_ge: "j \<le> snd (skip_statement lines paren_count j)"
proof (induction lines paren_count j rule: skip_statement.induct)
  case (1 lines paren_count j)
  show ?case
  proof (cases "paren_count > 0 \<and> j + 1 < length lines")
    case True
    then have "int j < int (length lines) - 1"
      by simp
    with True "1.IH" [OF _ refl refl]
    have "j + 1 \<le> snd (skip_statement lines (paren_count + paren_delta (lines ! (j + 1))) (j + 1))"
      by simp
    with True show ?thesis
      by (simp add: skip_statement_step)
  next
    case False
    then have "paren_count \<le> 0 \<or> length lines \<le> j + 1"
      by auto
    then show ?thesis
      by (simp only: skip_statement_stop snd_conv order_refl)
  qed
qed

text \<open>
  The outer loop: the cursor \<open>i\<close> and the list \<open>new_lines\<close> of the lines kept so far.
  \<^verbatim>\<open>
  while i < len(lines):
      line = lines[i]
      if re.search(r'\s*console\.(log|debug|info)\s*\(', line):
          paren_count = line.count('(') - line.count(')')
          j = i
          (inner loop)
          i = j + 1
          continue
      else:
          new_lines.append(line)
          i += 1
  \<close>
\<close>

function scan :: "str list \<Rightarrow> nat \<Rightarrow> str list \<Rightarrow> str list" where
  "scan lines i new_lines =
     (if i < length lines then
        (let line = lines ! i in
         if re_search line then
           (let paren_count = paren_delta line;
                j = snd (skip_statement lines paren_count i)
            in scan lines (j + 1) new_lines)
         else scan lines (i + 1) (new_lines @ [line]))
      else new_lines)"
  by pat_completeness auto
termination
proof (relation "measure (\<lambda>(lines, i, new_lines). length lines - i)")
  show "wf (measure (\<lambda>(lines, i, new_lines). length lines - i))"
    by simp
next
  fix lines :: "str list" and i :: nat and new_lines :: "str list"
    and line paren_count j
  assume "i < length lines" and "j = snd (skip_statement lines paren_count i)"
  moreover have "i \<le> snd (skip_statement lines paren_count i)"
    by (rule skip_statement_ge)
  ultimately show "((lines, j + 1, new_lines), (lines, i, new_lines))
      \<in> measure (\<lambda>(lines, i, new_lines). length lines - i)"
    by simp
next
  fix lines :: "str list" and i :: nat and new_lines :: "str list" and line
  assume "i < length lines"
  then show "((lines, i + 1, new_lines @ [line]), (lines, i, new_lines))
      \<in> measure (\<lambda>(lines, i, new_lines). length lines - i)"
    by simp
qed

declare scan.simps [simp del]

text \<open>
  The computation of \<open>remove_console_logs\<close> between reading and writing the file: the
  new content and whether it differs from the old one.
\<close>

definition excise :: "str \<Rightarrow> str \<times> bool" where
  "excise content =
     (let lines = split_nl content;
          new_lines = scan lines 0 [];
          new_content = join_nl new_lines
      in (new_content, new_content \<noteq> content))"

text \<open>
  The balance of the lines \<open>i\<close> to \<open>m\<close>, both included: every \<open>(\<close> counts 1 and every
  \<open>)\<close> counts -1.
\<close>

definition balance :: "str list \<Rightarrow> nat \<Rightarrow> nat \<Rightarrow> int" where
  "balance lines i m = (\<Sum>k = i..m. paren_delta (lines ! k))"

text \<open>
  The ranges of lines that the scan started at \<open>i\<close> skips, in order: the values of
  \<open>(i, j)\<close> each time the outer loop reaches \<open>i = j + 1\<close>. The function follows the
  outer loop and records the pair where the loop drops the lines.
\<close>

function excised_ranges :: "str list \<Rightarrow> nat \<Rightarrow> (nat \<times> nat) list" where
  "excised_ranges lines i =
     (if i < length lines then
        (let line = lines ! i in
         if re_search line then
           (let paren_count = paren_delta line;
                j = snd (skip_statement lines paren_count i)
            in (i, j) # excised_ranges lines (j + 1))
         else excised_ranges lines (i + 1))
      else [])"
  by pat_completeness auto
termination
proof (relation "measure (\<lambda>(lines, i). length lines - i)")
  show "wf (measure (\<lambda>(lines, i). length lines - i))"
    by simp
next
  fix lines :: "str list" and i :: nat and line paren_count j
  assume "i < length lines" and "j = snd (skip_statement lines paren_count i)"
  moreover have "i \<le> snd (skip_statement lines paren_count i)"
    by (rule skip_statement_ge)
  ultimately show "((lines, j + 1), (lines, i)) \<in> measure (\<lambda>(lines, i). length lines - i)"
    by simp
next
  fix lines :: "str list" and i :: nat and line
  assume "i < length lines"
  then show "((lines, i + 1), (lines, i)) \<in> measure (\<lambda>(lines, i). length lines - i)"
    by simp
qed

declare excised_ranges.simps [simp del]

text \<open>Whether the line \<open>k\<close> lies in one of the ranges.\<close>

definition covered :: "(nat \<times> nat) list \<Rightarrow> nat \<Rightarrow> bool" where
  "covered ranges k = list_ex (\<lambda>(s, e). s \<le> k \<and> k \<le> e) ranges"

section \<open>The batch rewriter\<close>

text \<open>
  The world \<open>remove_console_logs\<close> and \<open>main\<close> act on: what reading each path gives
  (its decoded text, or the error that \<open>open\<close> or \<open>read\<close> raises), how writing each path
  fails if it does, the messages that \<open>print\<close> cannot write (a text that the encoding
  of the standard output does not take, such as a path with a lone surrogate), and the
  messages printed so far.
\<close>

datatype io_error = FileAccessError | EncodingError | PrintError

datatype file_state = Text str | Unreadable io_error

text \<open>
  \<open>open(file_path, 'w')\<close> either raises and leaves the file as it is, or empties the
  file; after that \<open>f.write\<close> can still raise, with only the first characters of the
  new content in the file.
\<close>

datatype write_fault = Open_fails | Write_fails nat

datatype message = Cleaned str | Error_processing str io_error | Cleaning_complete nat

record world =
  files :: "str \<Rightarrow> file_state"
  write_faults :: "str \<Rightarrow> write_fault option"
  unprintable :: "message \<Rightarrow> bool"
  stdout :: "message list"

text \<open>
  An exception is \<open>Inl\<close>, with the world as it is when the exception is raised. \<open>print\<close>
  raises for a message that cannot be written and prints nothing then.
\<close>

definition print :: "world \<Rightarrow> message \<Rightarrow> io_error \<times> world + world" where
  "print w m =
     (if unprintable w m then Inl (PrintError, w) else Inr (w\<lparr>stdout := stdout w @ [m]\<rparr>))"

definition read_file :: "world \<Rightarrow> str \<Rightarrow> io_error \<times> world + str" where
  "read_file w file_path =
     (case files w file_path of
        Text content \<Rightarrow> Inr content
      | Unreadable e \<Rightarrow> Inl (e, w))"

definition write_file :: "world \<Rightarrow> str \<Rightarrow> str \<Rightarrow> io_error \<times> world + world" where
  "write_file w file_path new_content =
     (case write_faults w file_path of
        None \<Rightarrow> Inr (w\<lparr>files := (files w)(file_path := Text new_content)\<rparr>)
      | Some Open_fails \<Rightarrow> Inl (FileAccessError, w)
      | Some (Write_fails k) \<Rightarrow>
          Inl (FileAccessError,
               w\<lparr>files := (files w)(file_path := Text (take k new_content))\<rparr>))"

text \<open>
  The body of the \<open>try\<close> statement of \<open>remove_console_logs\<close>: reading, the excision,
  and, when the content has changed, writing and the message \<open>Cleaned\<close>.
\<close>

definition remove_console_logs_try :: "world \<Rightarrow> str \<Rightarrow> io_error \<times> world + world \<times> bool" where
  "remove_console_logs_try w file_path =
     (case read_file w file_path of
        Inl x \<Rightarrow> Inl x
      | Inr content \<Rightarrow>
          (let new_content = fst (excise content) in
           if new_content \<noteq> content then
             (case write_file w file_path new_content of
                Inl x \<Rightarrow> Inl x
              | Inr w' \<Rightarrow>
                  (case print w' (Cleaned file_path) of
                     Inl x \<Rightarrow> Inl x
                   | Inr w'' \<Rightarrow> Inr (w'', True)))
           else Inr (w, False)))"

text \<open>
  \<open>remove_console_logs\<close> with its \<open>except Exception\<close> clause: the clause prints the
  message \<open>Error processing\<close> and returns False; an exception that its own \<open>print\<close>
  raises leaves the function.
\<close>

definition remove_console_logs :: "world \<Rightarrow> str \<Rightarrow> io_error \<times> world + world \<times> bool" where
  "remove_console_logs w file_path =
     (case remove_console_logs_try w file_path of
        Inr r \<Rightarrow> Inr r
      | Inl (e, w') \<Rightarrow>
          (case print w' (Error_processing file_path e) of
             Inl x \<Rightarrow> Inl x
           | Inr w'' \<Rightarrow> Inr (w'', False)))"

text \<open>
  The loops of \<open>main\<close> over the paths that pass the extension test, with the counter
  \<open>files_cleaned\<close>. \<open>main\<close> has no \<open>try\<close>: an exception that leaves
  \<open>remove_console_logs\<close> ends the loops.
\<close>

fun process :: "world \<Rightarrow> str list \<Rightarrow> nat \<Rightarrow> io_error \<times> world + world \<times> nat" where
  "process w [] files_cleaned = Inr (w, files_cleaned)"
| "process w (file_path # rest) files_cleaned =
     (case remove_console_logs w file_path of
        Inl x \<Rightarrow> Inl x
      | Inr (w', cleaned) \<Rightarrow>
          process w' rest (if cleaned then files_cleaned + 1 else files_cleaned))"

text \<open>
  \<open>os.path.join(root, file)\<close> on a POSIX system, and the paths \<open>main\<close> builds from the
  triples \<open>(root, dirs, files)\<close> that \<open>os.walk\<close> yields for the directories that exist.
\<close>

definition path_join :: "str \<Rightarrow> str \<Rightarrow> str" where
  "path_join root file =
     (if prefix (ascii ''/'') file then file
      else if root = [] \<or> suffix (ascii ''/'') root then root @ file
      else root @ ascii ''/'' @ file)"

definition endswith :: "str \<Rightarrow> str list \<Rightarrow> bool" where
  "endswith file endings = list_ex (\<lambda>ending. suffix ending file) endings"

definition candidates :: "(str \<times> str list \<times> str list) list \<Rightarrow> str list" where
  "candidates walk =
     concat (map (\<lambda>(root, dirs, files).
       map (path_join root) (filter (\<lambda>file. endswith file [ascii ''.ts'', ascii ''.tsx'']) files))
       walk)"

definition main :: "world \<Rightarrow> (str \<times> str list \<times> str list) list \<Rightarrow> io_error \<times> world + world" where
  "main w walk =
     (case process w (candidates walk) 0 of
        Inl x \<Rightarrow> Inl x
      | Inr (w', files_cleaned) \<Rightarrow> print w' (Cleaning_complete files_cleaned))"

section \<open>The range splice\<close>

text \<open>
  Python's slices \<open>xs[lo:hi]\<close> and \<open>xs[lo:]\<close>: a negative index counts from the end, and
  an index outside the list is clamped to it.
\<close>

definition slice_index :: "nat \<Rightarrow> int \<Rightarrow> nat" where
  "slice_index n i =
     (if i < 0 then (if i + int n < 0 then 0 else nat (i + int n))
      else if int n \<le> i then n else nat i)"

definition slice :: "'a list \<Rightarrow> int \<Rightarrow> int \<Rightarrow> 'a list" where
  "slice xs lo hi =
     (let l = slice_index (length xs) lo; h = slice_index (length xs) hi
      in take (h - l) (drop l xs))"

definition slice_from :: "'a list \<Rightarrow> int \<Rightarrow> 'a list" where
  "slice_from xs lo = drop (slice_index (length xs) lo) xs"

text \<open>
  The expression \<open>lines[0:77] + [delegation] + lines[783:]\<close> of
  \<open>extract_guest_method.py\<close>, with its two indices and its replacement as parameters.
\<close>

definition splice_lines :: "'a list \<Rightarrow> int \<Rightarrow> int \<Rightarrow> 'a list \<Rightarrow> 'a list" where
  "splice_lines lines startIndex endIndexExclusive block =
     slice lines 0 startIndex @ block @ slice_from lines endIndexExclusive"

definition delegation :: str where
  "delegation =
     ascii ''  /**'' @ [newline] @
     ascii ''   * Register a guest for an event role'' @ [newline] @
     ascii ''   * POST /api/events/:eventId/guest-signup'' @ [newline] @
     ascii ''   */'' @ [newline] @
     ascii ''  static async registerGuest(req: Request, res: Response): Promise<void> {'' @ [newline] @
     ascii ''    const { GuestRegistrationController } = await import('' @ [newline] @
     ascii ''      \"./guest/GuestRegistrationController\"'' @ [newline] @
     ascii ''    );'' @ [newline] @
     ascii ''    return GuestRegistrationController.registerGuest(req, res);'' @ [newline] @
     ascii ''  }'' @ [newline] @
     [newline]"

text \<open>The list \<open>new_lines\<close> that the script writes back, from the lines it read.\<close>

definition extract_guest_method :: "str list \<Rightarrow> str list" where
  "extract_guest_method lines = splice_lines lines 77 783 [delegation]"

section \<open>Example inputs\<close>

text \<open>The five lines of the multi-line example, as one content string.\<close>

definition multi_line_example :: str where
  "multi_line_example =
     ascii ''console.log('' @ [newline] @
     ascii ''  \"value:\", x,'' @ [newline] @
     ascii ''  y'' @ [newline] @
     ascii '');'' @ [newline] @
     ascii ''nextStatement();''"

text \<open>A statement that is never closed, between two other lines.\<close>

definition unclosed_example :: "str list" where
  "unclosed_example =
     [ascii ''first();'', ascii ''console.log('', ascii ''  x,'', ascii ''last();'']"

text \<open>A matched line that closes one parenthesis more than it opens.\<close>

definition overclosed_example :: "str list" where
  "overclosed_example =
     [ascii ''promise.then('', ascii ''  (x) => console.log(x));'', ascii ''after();'']"

text \<open>A statement on one line, between two other lines.\<close>

definition single_line_example :: "str list" where
  "single_line_example =
     [ascii ''before();'', ascii ''console.log(x);'', ascii ''after();'']"

text \<open>Twenty lines and a replacement block of one line.\<close>

definition twenty_lines :: "str list" where
  "twenty_lines = map (\<lambda>k. ascii ''line '' @ [97 + k]) [0..<20]"

definition stub_block :: "str list" where
  "stub_block = [ascii ''stub();'']"

text \<open>Two matched lines of balance 0 next to each other.\<close>

definition adjacent_matches_example :: "str list" where
  "adjacent_matches_example =
     [ascii ''a();'', ascii ''console.log(1);'', ascii ''console.log(2);'', ascii ''b();'']"

text \<open>A statement on one line right after the last line of a statement on three lines.\<close>

definition closing_line_example :: "str list" where
  "closing_line_example =
     [ascii ''console.log('', ascii ''  a'', ascii '');'', ascii ''console.log(b);'',
      ascii ''after();'']"

text \<open>
  Three paths: the first and the third are files with a statement to remove, the second
  cannot be read. \<open>bad_path\<close> is the name of a file whose bytes are not UTF-8: the
  code point U+DCFF stands for the byte 0xFF in the string that \<open>os.walk\<close> yields, and
  \<open>print\<close> cannot encode it.
\<close>

definition path_a :: str where
  "path_a = ascii ''src/a.ts''"

definition path_b :: str where
  "path_b = ascii ''src/b.ts''"

definition bad_path :: str where
  "bad_path = ascii ''src/b'' @ [56575] @ ascii ''.ts''"

definition path_c :: str where
  "path_c = ascii ''src/c.tsx''"

text \<open>What \<open>os.walk\<close> yields for a directory with four files.\<close>

definition example_walk :: "(str \<times> str list \<times> str list) list" where
  "example_walk =
     [(ascii ''src'', [],
       [ascii ''a.ts'', ascii ''b'' @ [56575] @ ascii ''.ts'', ascii ''notes.md'',
        ascii ''c.tsx''])]"

definition has_surrogate :: "str \<Rightarrow> bool" where
  "has_surrogate s = list_ex (\<lambda>c. 55296 \<le> c \<and> c \<le> 57343) s"

definition surrogate_message :: "message \<Rightarrow> bool" where
  "surrogate_message m =
     (case m of
        Cleaned file_path \<Rightarrow> has_surrogate file_path
      | Error_processing file_path e \<Rightarrow> has_surrogate file_path
      | Cleaning_complete files_cleaned \<Rightarrow> False)"

definition content_a :: str where
  "content_a = ascii ''console.log(1);'' @ [newline] @ ascii ''keep();''"

definition content_c :: str where
  "content_c = ascii ''console.info(2);'' @ [newline] @ ascii ''stay();''"

definition example_world :: world where
  "example_world =
     \<lparr>files = (\<lambda>p. Unreadable FileAccessError)
        (path_a := Text content_a, path_c := Text content_c),
      write_faults = (\<lambda>p. None),
      unprintable = surrogate_message,
      stdout = []\<rparr>"

text \<open>
  The same files with a standard output that cannot encode the signs the three messages
  start with: every \<open>print\<close> of the program raises.
\<close>

definition ascii_stdout_world :: world where
  "ascii_stdout_world = example_world\<lparr>unprintable := (\<lambda>m. True)\<rparr>"

section \<open>Splitting and joining\<close>

lemma split_nl_not_Nil: "split_nl s \<noteq> []"
  by (cases s) (simp_all add: Let_def)

lemma join_nl_Cons: "ls \<noteq> [] \<Longrightarrow> join_nl (l # ls) = l @ newline # join_nl ls"
  by (cases ls) simp_all

lemma join_split_nl: "join_nl (split_nl s) = s"
proof (induction s)
  case Nil
  show ?case by simp
next
  case (Cons c cs)
  obtain l ls where ps: "split_nl cs = l # ls"
    using split_nl_not_Nil [of cs] by (cases "split_nl cs") auto
  show ?case
  proof (cases "c = newline")
    case True
    with Cons show ?thesis
      by (simp add: Let_def join_nl_Cons split_nl_not_Nil)
  next
    case False
    from Cons ps have cs: "cs = join_nl (l # ls)"
      by simp
    from False ps have "join_nl (split_nl (c # cs)) = join_nl ((c # l) # ls)"
      by (simp add: Let_def)
    also have "\<dots> = c # join_nl (l # ls)"
      by (cases ls) simp_all
    finally show ?thesis
      using cs by simp
  qed
qed

lemma split_nl_no_newline: "l \<in> set (split_nl s) \<Longrightarrow> newline \<notin> set l"
proof (induction s arbitrary: l)
  case Nil
  then show ?case by simp
next
  case (Cons c cs)
  obtain p ps where ps: "split_nl cs = p # ps"
    using split_nl_not_Nil [of cs] by (cases "split_nl cs") auto
  show ?case
  proof (cases "c = newline")
    case True
    with Cons.prems have "l = [] \<or> l \<in> set (split_nl cs)"
      by (simp add: Let_def)
    with Cons.IH show ?thesis
      by auto
  next
    case False
    with Cons.prems ps have "l = c # p \<or> l \<in> set ps"
      by (simp add: Let_def)
    moreover have "newline \<notin> set p"
      using Cons.IH [of p] ps by simp
    moreover have "l \<in> set ps \<Longrightarrow> newline \<notin> set l"
      using Cons.IH [of l] ps by simp
    ultimately show ?thesis
      using False by auto
  qed
qed

lemma split_nl_line: "newline \<notin> set l \<Longrightarrow> split_nl l = [l]"
  by (induction l) (simp_all add: Let_def)

lemma split_nl_append:
  "newline \<notin> set l \<Longrightarrow> split_nl (l @ newline # s) = l # split_nl s"
  by (induction l) (simp_all add: Let_def)

lemma split_join_nl:
  assumes "ls \<noteq> []" and "\<forall>l \<in> set ls. newline \<notin> set l"
  shows "split_nl (join_nl ls) = ls"
  using assms
proof (induction ls rule: join_nl.induct)
  case 1
  then show ?case by simp
next
  case (2 l)
  then show ?case by (simp add: split_nl_line)
next
  case (3 l m ls)
  then show ?case by (simp add: split_nl_append)
qed

section \<open>The inner loop\<close>

lemma skip_statement_lt:
  "j < length lines \<Longrightarrow> snd (skip_statement lines paren_count j) < length lines"
proof (induction lines paren_count j rule: skip_statement.induct)
  case (1 lines paren_count j)
  show ?case
  proof (cases "paren_count > 0 \<and> j + 1 < length lines")
    case True
    then have "int j < int (length lines) - 1"
      by simp
    with True "1.IH" [OF _ refl refl]
    have "snd (skip_statement lines (paren_count + paren_delta (lines ! (j + 1))) (j + 1))
        < length lines"
      by simp
    with True show ?thesis
      by (simp add: skip_statement_step)
  next
    case False
    then have "paren_count \<le> 0 \<or> length lines \<le> j + 1"
      by auto
    with "1.prems" show ?thesis
      by (simp only: skip_statement_stop snd_conv)
  qed
qed

lemma skip_statement_left:
  "fst (skip_statement lines paren_count j) \<le> 0 \<or>
   length lines \<le> snd (skip_statement lines paren_count j) + 1"
proof (induction lines paren_count j rule: skip_statement.induct)
  case (1 lines paren_count j)
  show ?case
  proof (cases "paren_count > 0 \<and> j + 1 < length lines")
    case True
    then have "int j < int (length lines) - 1"
      by simp
    with True "1.IH" [OF _ refl refl] show ?thesis
      by (simp add: skip_statement_step)
  next
    case False
    then have "paren_count \<le> 0 \<or> length lines \<le> j + 1"
      by auto
    then show ?thesis
      by (simp only: skip_statement_stop snd_conv fst_conv)
  qed
qed

lemma sum_greaterThanAtMost_step:
  fixes f :: "nat \<Rightarrow> int"
  assumes "j < m"
  shows "(\<Sum>k \<in> {j<..m}. f k) = f (j + 1) + (\<Sum>k \<in> {j + 1<..m}. f k)"
proof -
  from assms have "{j<..m} = insert (j + 1) {j + 1<..m}"
    by auto
  then show ?thesis
    by simp
qed

lemma skip_statement_sum:
  "fst (skip_statement lines paren_count j) =
   paren_count + (\<Sum>k \<in> {j<..snd (skip_statement lines paren_count j)}. paren_delta (lines ! k))"
proof (induction lines paren_count j rule: skip_statement.induct)
  case (1 lines paren_count j)
  show ?case
  proof (cases "paren_count > 0 \<and> j + 1 < length lines")
    case True
    let ?r = "skip_statement lines (paren_count + paren_delta (lines ! (j + 1))) (j + 1)"
    from True have "int j < int (length lines) - 1"
      by simp
    with True "1.IH" [OF _ refl refl]
    have "fst ?r = paren_count + paren_delta (lines ! (j + 1))
        + (\<Sum>k \<in> {j + 1<..snd ?r}. paren_delta (lines ! k))"
      by simp
    moreover have "j < snd ?r"
      using skip_statement_ge [of "j + 1" lines "paren_count + paren_delta (lines ! (j + 1))"]
      by simp
    ultimately have "fst ?r = paren_count + (\<Sum>k \<in> {j<..snd ?r}. paren_delta (lines ! k))"
      by (simp add: sum_greaterThanAtMost_step)
    with True show ?thesis
      by (simp add: skip_statement_step)
  next
    case False
    then have "paren_count \<le> 0 \<or> length lines \<le> j + 1"
      by auto
    then show ?thesis
      by (simp add: skip_statement_stop)
  qed
qed

lemma skip_statement_open:
  "j \<le> m \<Longrightarrow> m < snd (skip_statement lines paren_count j) \<Longrightarrow>
   0 < paren_count + (\<Sum>k \<in> {j<..m}. paren_delta (lines ! k))"
proof (induction lines paren_count j rule: skip_statement.induct)
  case (1 lines paren_count j)
  show ?case
  proof (cases "paren_count > 0 \<and> j + 1 < length lines")
    case True
    let ?pc = "paren_count + paren_delta (lines ! (j + 1))"
    from True have step: "skip_statement lines paren_count j = skip_statement lines ?pc (j + 1)"
      by (simp add: skip_statement_step)
    show ?thesis
    proof (cases "m = j")
      case True
      with \<open>paren_count > 0 \<and> j + 1 < length lines\<close> show ?thesis
        by simp
    next
      case False
      with "1.prems" have jm: "j + 1 \<le> m" and "j < m"
        by simp_all
      from True have "int j < int (length lines) - 1"
        by simp
      with True jm "1.prems" step "1.IH" [OF _ refl refl]
      have "0 < ?pc + (\<Sum>k \<in> {j + 1<..m}. paren_delta (lines ! k))"
        by simp
      with \<open>j < m\<close> show ?thesis
        by (simp add: sum_greaterThanAtMost_step)
    qed
  next
    case False
    then have "paren_count \<le> 0 \<or> length lines \<le> j + 1"
      by auto
    then have "snd (skip_statement lines paren_count j) = j"
      by (simp add: skip_statement_stop)
    with "1.prems" show ?thesis
      by simp
  qed
qed

lemma balance_split:
  "i \<le> m \<Longrightarrow>
   balance lines i m = paren_delta (lines ! i) + (\<Sum>k \<in> {i<..m}. paren_delta (lines ! k))"
proof -
  assume "i \<le> m"
  then have "{i..m} = insert i {i<..m}"
    by auto
  then show ?thesis
    by (simp add: balance_def)
qed

lemma balance_single: "balance lines i i = paren_delta (lines ! i)"
  by (simp add: balance_def)

text \<open>The inner loop started at a matched line \<open>i\<close>, in terms of the balance.\<close>

lemma skip_statement_balance:
  "fst (skip_statement lines (paren_delta (lines ! i)) i) =
   balance lines i (snd (skip_statement lines (paren_delta (lines ! i)) i))"
  using skip_statement_sum [where lines = lines and paren_count = "paren_delta (lines ! i)" and j = i]
    balance_split [OF skip_statement_ge [where j = i and paren_count = "paren_delta (lines ! i)"
        and lines = lines], where lines = lines]
  by simp

lemma skip_statement_closed:
  "balance lines i (snd (skip_statement lines (paren_delta (lines ! i)) i)) \<le> 0 \<or>
   length lines \<le> snd (skip_statement lines (paren_delta (lines ! i)) i) + 1"
  using skip_statement_left [where lines = lines and paren_count = "paren_delta (lines ! i)" and j = i]
  by (simp only: skip_statement_balance)

lemma skip_statement_positive:
  "i \<le> m \<Longrightarrow> m < snd (skip_statement lines (paren_delta (lines ! i)) i) \<Longrightarrow>
   0 < balance lines i m"
  using skip_statement_open [where j = i and m = m and lines = lines
      and paren_count = "paren_delta (lines ! i)"]
  by (simp add: balance_split)

lemma skip_statement_least:
  assumes "i \<le> m" and "balance lines i m \<le> 0"
  shows "snd (skip_statement lines (paren_delta (lines ! i)) i) \<le> m"
proof (rule ccontr)
  assume "\<not> ?thesis"
  then have "m < snd (skip_statement lines (paren_delta (lines ! i)) i)"
    by simp
  from skip_statement_positive [OF assms(1) this] assms(2) show False
    by simp
qed

section \<open>The outer loop\<close>

lemma scan_done: "length lines \<le> i \<Longrightarrow> scan lines i new_lines = new_lines"
  by (subst scan.simps) simp

lemma scan_keep:
  "i < length lines \<Longrightarrow> \<not> re_search (lines ! i) \<Longrightarrow>
   scan lines i new_lines = scan lines (i + 1) (new_lines @ [lines ! i])"
  by (subst scan.simps) simp

lemma scan_drop:
  "i < length lines \<Longrightarrow> re_search (lines ! i) \<Longrightarrow>
   scan lines i new_lines =
   scan lines (snd (skip_statement lines (paren_delta (lines ! i)) i) + 1) new_lines"
  by (subst scan.simps) (simp add: Let_def)

lemma excised_ranges_done: "length lines \<le> i \<Longrightarrow> excised_ranges lines i = []"
  by (subst excised_ranges.simps) simp

lemma excised_ranges_keep:
  "i < length lines \<Longrightarrow> \<not> re_search (lines ! i) \<Longrightarrow>
   excised_ranges lines i = excised_ranges lines (i + 1)"
  by (subst excised_ranges.simps) simp

lemma excised_ranges_drop:
  "i < length lines \<Longrightarrow> re_search (lines ! i) \<Longrightarrow>
   excised_ranges lines i =
   (i, snd (skip_statement lines (paren_delta (lines ! i)) i))
   # excised_ranges lines (snd (skip_statement lines (paren_delta (lines ! i)) i) + 1)"
  by (subst excised_ranges.simps) (simp add: Let_def)

text \<open>
  An induction rule that follows the outer loop: the cursor is past the end, or stands
  on a line that is kept, or stands on a matched line.
\<close>

lemma scan_cases_induct [case_names finished kept dropped]:
  assumes "\<And>i. length lines \<le> i \<Longrightarrow> P i"
    and "\<And>i. i < length lines \<Longrightarrow> \<not> re_search (lines ! i) \<Longrightarrow> P (i + 1) \<Longrightarrow> P i"
    and "\<And>i. i < length lines \<Longrightarrow> re_search (lines ! i) \<Longrightarrow>
           P (snd (skip_statement lines (paren_delta (lines ! i)) i) + 1) \<Longrightarrow> P i"
  shows "P i"
proof (induction "length lines - i" arbitrary: i rule: less_induct)
  case less
  show ?case
  proof (cases "i < length lines")
    case False
    then show ?thesis
      by (simp add: assms(1))
  next
    case True
    show ?thesis
    proof (cases "re_search (lines ! i)")
      case False
      from True have "length lines - (i + 1) < length lines - i"
        by simp
      then have "P (i + 1)"
        by (rule less)
      with True False show ?thesis
        by (rule assms(2))
    next
      case match: True
      let ?j = "snd (skip_statement lines (paren_delta (lines ! i)) i)"
      have "i \<le> ?j"
        by (rule skip_statement_ge)
      with True have "length lines - (?j + 1) < length lines - i"
        by simp
      then have "P (?j + 1)"
        by (rule less)
      with True match show ?thesis
        by (rule assms(3))
    qed
  qed
qed

lemma scan_append: "scan lines i new_lines = new_lines @ scan lines i []"
proof (induction i arbitrary: new_lines rule: scan_cases_induct [where lines = lines])
  case (finished i)
  then show ?case
    by (simp add: scan_done)
next
  case (kept i)
  have here: "scan lines i [] = scan lines (i + 1) [lines ! i]"
    using scan_keep [OF kept.hyps, of "[]"] by simp
  have "scan lines i new_lines = scan lines (i + 1) (new_lines @ [lines ! i])"
    using kept.hyps by (rule scan_keep)
  also have "\<dots> = (new_lines @ [lines ! i]) @ scan lines (i + 1) []"
    by (rule kept.IH)
  also have "\<dots> = new_lines @ ([lines ! i] @ scan lines (i + 1) [])"
    by simp
  also have "[lines ! i] @ scan lines (i + 1) [] = scan lines (i + 1) [lines ! i]"
    by (rule kept.IH [symmetric])
  finally show ?case
    by (simp only: here)
next
  case (dropped i)
  let ?j = "snd (skip_statement lines (paren_delta (lines ! i)) i)"
  have here: "scan lines i [] = scan lines (?j + 1) []"
    using dropped.hyps by (rule scan_drop)
  have "scan lines i new_lines = scan lines (?j + 1) new_lines"
    using dropped.hyps by (rule scan_drop)
  also have "\<dots> = new_lines @ scan lines (?j + 1) []"
    by (rule dropped.IH)
  finally show ?case
    by (simp only: here)
qed

lemma scan_keep_Cons:
  "i < length lines \<Longrightarrow> \<not> re_search (lines ! i) \<Longrightarrow>
   scan lines i [] = lines ! i # scan lines (i + 1) []"
proof -
  assume "i < length lines" and "\<not> re_search (lines ! i)"
  then have "scan lines i [] = scan lines (i + 1) ([] @ [lines ! i])"
    by (rule scan_keep)
  also have "\<dots> = [lines ! i] @ scan lines (i + 1) []"
    by (simp only: append_Nil scan_append [where new_lines = "[lines ! i]"])
  finally show ?thesis
    by simp
qed

lemma drop_from_earlier:
  assumes "i \<le> k"
  shows "drop i xs = take (k - i) (drop i xs) @ drop k xs"
proof -
  have "drop i xs = take (k - i) (drop i xs) @ drop (k - i) (drop i xs)"
    by (simp only: append_take_drop_id)
  moreover from assms have "drop (k - i) (drop i xs) = drop k xs"
    by simp
  ultimately show ?thesis
    by (simp only:)
qed

lemma scan_subseq: "subseq (scan lines i []) (drop i lines)"
proof (induction i rule: scan_cases_induct [where lines = lines])
  case (finished i)
  then show ?case
    by (simp add: scan_done)
next
  case (kept i)
  from kept.hyps have "drop i lines = lines ! i # drop (i + 1) lines"
    by (simp add: Cons_nth_drop_Suc)
  with kept show ?case
    by (simp add: scan_keep_Cons)
next
  case (dropped i)
  let ?j = "snd (skip_statement lines (paren_delta (lines ! i)) i)"
  have "i \<le> ?j + 1"
    using skip_statement_ge [of i lines "paren_delta (lines ! i)"] by simp
  then have "drop i lines = take (?j + 1 - i) (drop i lines) @ drop (?j + 1) lines"
    by (rule drop_from_earlier)
  moreover have "subseq (scan lines (?j + 1) [])
      (take (?j + 1 - i) (drop i lines) @ drop (?j + 1) lines)"
    using dropped.IH by (rule list_emb_append2)
  moreover have "scan lines i [] = scan lines (?j + 1) []"
    using dropped.hyps by (rule scan_drop)
  ultimately show ?case
    by simp
qed

lemma scan_kept_no_match: "l \<in> set (scan lines i []) \<Longrightarrow> \<not> re_search l"
proof (induction i rule: scan_cases_induct [where lines = lines])
  case (finished i)
  then show ?case
    by (simp add: scan_done)
next
  case (kept i)
  from kept.prems kept.hyps have "l = lines ! i \<or> l \<in> set (scan lines (i + 1) [])"
    by (simp add: scan_keep_Cons)
  with kept.hyps kept.IH show ?case
    by auto
next
  case (dropped i)
  from dropped.prems dropped.hyps dropped.IH show ?case
    by (simp add: scan_drop)
qed

lemma scan_clean:
  "(\<And>k. i \<le> k \<Longrightarrow> k < length lines \<Longrightarrow> \<not> re_search (lines ! k)) \<Longrightarrow>
   scan lines i [] = drop i lines"
proof (induction i rule: scan_cases_induct [where lines = lines])
  case (finished i)
  then show ?case
    by (simp add: scan_done)
next
  case (kept i)
  have "scan lines (i + 1) [] = drop (i + 1) lines"
    by (rule kept.IH) (simp add: kept.prems)
  with kept.hyps show ?case
    by (simp add: scan_keep_Cons Cons_nth_drop_Suc)
next
  case (dropped i)
  from dropped.prems [of i] dropped.hyps show ?case
    by simp
qed

section \<open>The excised ranges\<close>

lemma excised_ranges_bounds:
  "(s, e) \<in> set (excised_ranges lines i) \<Longrightarrow> i \<le> s \<and> s \<le> e \<and> e < length lines"
proof (induction i rule: scan_cases_induct [where lines = lines])
  case (finished i)
  then show ?case
    by (simp add: excised_ranges_done)
next
  case (kept i)
  from kept.prems kept.hyps have "(s, e) \<in> set (excised_ranges lines (i + 1))"
    by (simp add: excised_ranges_keep)
  then have "i + 1 \<le> s \<and> s \<le> e \<and> e < length lines"
    by (rule kept.IH)
  then show ?case
    by simp
next
  case (dropped i)
  let ?j = "snd (skip_statement lines (paren_delta (lines ! i)) i)"
  from dropped.prems dropped.hyps
  have "(s, e) = (i, ?j) \<or> (s, e) \<in> set (excised_ranges lines (?j + 1))"
    by (simp add: excised_ranges_drop)
  then show ?case
  proof
    assume "(s, e) = (i, ?j)"
    then show ?thesis
      using skip_statement_ge [of i lines "paren_delta (lines ! i)"]
        skip_statement_lt [OF dropped.hyps(1), of "paren_delta (lines ! i)"]
      by simp
  next
    assume "(s, e) \<in> set (excised_ranges lines (?j + 1))"
    then have "?j + 1 \<le> s \<and> s \<le> e \<and> e < length lines"
      by (rule dropped.IH)
    then show ?thesis
      using skip_statement_ge [of i lines "paren_delta (lines ! i)"] by simp
  qed
qed

lemma not_covered_before:
  "k < i \<Longrightarrow> \<not> covered (excised_ranges lines i) k"
proof
  assume "k < i" and "covered (excised_ranges lines i) k"
  then obtain s e where "(s, e) \<in> set (excised_ranges lines i)" and "s \<le> k"
    by (auto simp: covered_def list_ex_iff)
  with excised_ranges_bounds [of s e lines i] \<open>k < i\<close> show False
    by simp
qed

lemma covered_Cons: "covered ((s, e) # ranges) k = (s \<le> k \<and> k \<le> e \<or> covered ranges k)"
  by (simp add: covered_def)

text \<open>Every range that the scan records satisfies what the loops establish.\<close>

lemma excised_ranges_closed:
  "(s, e) \<in> set (excised_ranges lines i) \<Longrightarrow>
   re_search (lines ! s) \<and>
   e = snd (skip_statement lines (paren_delta (lines ! s)) s)"
proof (induction i rule: scan_cases_induct [where lines = lines])
  case (finished i)
  then show ?case
    by (simp add: excised_ranges_done)
next
  case (kept i)
  then show ?case
    by (simp add: excised_ranges_keep)
next
  case (dropped i)
  then show ?case
    by (auto simp: excised_ranges_drop)
qed

lemma upt_split:
  assumes "i \<le> k" and "k \<le> n"
  shows "[i..<n] = [i..<k] @ [k..<n]"
proof -
  from assms have "n = k + (n - k)"
    by simp
  then have "[i..<n] = [i..<k + (n - k)]"
    by simp
  also from assms(1) have "\<dots> = [i..<k] @ [k..<k + (n - k)]"
    by (rule upt_add_eq_append)
  finally show ?thesis
    using assms by simp
qed

text \<open>The lines that the scan keeps are the lines outside the recorded ranges, in order.\<close>

lemma scan_excised_ranges:
  "scan lines i [] =
   map ((!) lines) (filter (\<lambda>k. \<not> covered (excised_ranges lines i) k) [i..<length lines])"
proof (induction i rule: scan_cases_induct [where lines = lines])
  case (finished i)
  then show ?case
    by (simp add: scan_done)
next
  case (kept i)
  have same: "excised_ranges lines i = excised_ranges lines (i + 1)"
    using kept.hyps by (rule excised_ranges_keep)
  have "\<not> covered (excised_ranges lines (i + 1)) i"
    by (rule not_covered_before) simp
  moreover from kept.hyps have "[i..<length lines] = i # [i + 1..<length lines]"
    by (simp add: upt_conv_Cons)
  ultimately
  have "map ((!) lines) (filter (\<lambda>k. \<not> covered (excised_ranges lines i) k) [i..<length lines])
      = lines ! i # map ((!) lines)
          (filter (\<lambda>k. \<not> covered (excised_ranges lines (i + 1)) k) [i + 1..<length lines])"
    by (simp add: same)
  moreover have "scan lines i [] = lines ! i # scan lines (i + 1) []"
    using kept.hyps by (rule scan_keep_Cons)
  ultimately show ?case
    using kept.IH by (simp only:)
next
  case (dropped i)
  let ?j = "snd (skip_statement lines (paren_delta (lines ! i)) i)"
  let ?rest = "excised_ranges lines (?j + 1)"
  have ij: "i \<le> ?j"
    by (rule skip_statement_ge)
  have jn: "?j < length lines"
    using dropped.hyps(1) by (rule skip_statement_lt)
  have ranges: "excised_ranges lines i = (i, ?j) # ?rest"
    using dropped.hyps by (rule excised_ranges_drop)
  from ij jn have "[i..<length lines] = [i..<?j + 1] @ [?j + 1..<length lines]"
    by (intro upt_split) simp_all
  moreover have "filter (\<lambda>k. \<not> covered ((i, ?j) # ?rest) k) [i..<?j + 1] = []"
    using ij by (auto simp: filter_empty_conv covered_Cons)
  moreover have "filter (\<lambda>k. \<not> covered ((i, ?j) # ?rest) k) [?j + 1..<length lines]
      = filter (\<lambda>k. \<not> covered ?rest k) [?j + 1..<length lines]"
    by (rule filter_cong) (simp_all add: covered_Cons)
  ultimately
  have "filter (\<lambda>k. \<not> covered (excised_ranges lines i) k) [i..<length lines]
      = filter (\<lambda>k. \<not> covered ?rest k) [?j + 1..<length lines]"
    by (simp only: ranges filter_append append_Nil)
  moreover have "scan lines i [] = scan lines (?j + 1) []"
    using dropped.hyps by (rule scan_drop)
  ultimately show ?case
    using dropped.IH by (simp only:)
qed

text \<open>Every matched line at or after the cursor lies in a recorded range.\<close>

lemma matched_covered:
  "i \<le> k \<Longrightarrow> k < length lines \<Longrightarrow> re_search (lines ! k) \<Longrightarrow>
   covered (excised_ranges lines i) k"
proof (induction i rule: scan_cases_induct [where lines = lines])
  case (finished i)
  then show ?case
    by simp
next
  case (kept i)
  from kept.prems kept.hyps have "k \<noteq> i"
    by auto
  with kept.prems have "i + 1 \<le> k"
    by simp
  with kept.IH kept.prems kept.hyps show ?case
    by (simp add: excised_ranges_keep)
next
  case (dropped i)
  let ?j = "snd (skip_statement lines (paren_delta (lines ! i)) i)"
  have ranges: "excised_ranges lines i = (i, ?j) # excised_ranges lines (?j + 1)"
    using dropped.hyps by (rule excised_ranges_drop)
  show ?case
  proof (cases "k \<le> ?j")
    case True
    with dropped.prems show ?thesis
      by (simp only: ranges covered_Cons) simp
  next
    case False
    then have "?j + 1 \<le> k"
      by simp
    then have "covered (excised_ranges lines (?j + 1)) k"
      using dropped.prems(2,3) by (rule dropped.IH)
    then show ?thesis
      by (simp only: ranges covered_Cons) simp
  qed
qed

lemma covered_append: "covered (rs @ rs') k = (covered rs k \<or> covered rs' k)"
  by (simp add: covered_def)

text \<open>
  A line where a range starts is a place where the cursor of the scan stands: the ranges
  recorded from there on are the rest of the list, and the ranges before it end before it.
\<close>

lemma excised_ranges_split:
  "(i, e) \<in> set (excised_ranges lines a) \<Longrightarrow>
   \<exists>pre. excised_ranges lines a = pre @ excised_ranges lines i \<and>
     (\<forall>r \<in> set pre. snd r < i)"
proof (induction a rule: scan_cases_induct [where lines = lines])
  case (finished a)
  then show ?case
    by (simp add: excised_ranges_done)
next
  case (kept a)
  then show ?case
    by (simp add: excised_ranges_keep)
next
  case (dropped a)
  let ?j = "snd (skip_statement lines (paren_delta (lines ! a)) a)"
  have ranges: "excised_ranges lines a = (a, ?j) # excised_ranges lines (?j + 1)"
    using dropped.hyps by (rule excised_ranges_drop)
  from dropped.prems have "(i, e) = (a, ?j) \<or> (i, e) \<in> set (excised_ranges lines (?j + 1))"
    by (simp add: ranges)
  then show ?case
  proof
    assume "(i, e) = (a, ?j)"
    then have "excised_ranges lines a = [] @ excised_ranges lines i"
      by simp
    then show ?thesis
      by (intro exI [of _ "[]"]) simp
  next
    assume later: "(i, e) \<in> set (excised_ranges lines (?j + 1))"
    then obtain pre where pre: "excised_ranges lines (?j + 1) = pre @ excised_ranges lines i"
      and before: "\<forall>r \<in> set pre. snd r < i"
      using dropped.IH by blast
    from later have "?j + 1 \<le> i"
      using excised_ranges_bounds [of i e lines "?j + 1"] by simp
    with before have "\<forall>r \<in> set ((a, ?j) # pre). snd r < i"
      by simp
    moreover from pre have "excised_ranges lines a = ((a, ?j) # pre) @ excised_ranges lines i"
      by (simp add: ranges)
    ultimately show ?thesis
      by blast
  qed
qed

lemma covered_from_cursor:
  assumes "(i, e) \<in> set (excised_ranges lines 0)" and "i \<le> k"
  shows "covered (excised_ranges lines 0) k = covered (excised_ranges lines i) k"
proof -
  from excised_ranges_split [OF assms(1)] obtain pre
    where pre: "excised_ranges lines 0 = pre @ excised_ranges lines i"
      and before: "\<forall>r \<in> set pre. snd r < i"
    by blast
  from before assms(2) have "\<not> covered pre k"
    by (fastforce simp: covered_def list_ex_iff)
  then show ?thesis
    by (simp add: pre covered_append)
qed

text \<open>The run from the first line reaches the cursor \<open>i\<close> with the lines kept before it.\<close>

lemma scan_reaches_cursor:
  assumes "(i, e) \<in> set (excised_ranges lines 0)"
  shows "scan lines 0 [] =
    scan lines i
      (map ((!) lines) (filter (\<lambda>k. \<not> covered (excised_ranges lines 0) k) [0..<i]))"
proof -
  let ?keep = "\<lambda>k. \<not> covered (excised_ranges lines 0) k"
  from assms have "i < length lines"
    using excised_ranges_bounds [of i e lines 0] by simp
  then have "[0..<length lines] = [0..<i] @ [i..<length lines]"
    by (intro upt_split) simp_all
  then have "scan lines 0 [] =
      map ((!) lines) (filter ?keep [0..<i]) @ map ((!) lines) (filter ?keep [i..<length lines])"
    using scan_excised_ranges [of lines 0] by simp
  also have "filter ?keep [i..<length lines] =
      filter (\<lambda>k. \<not> covered (excised_ranges lines i) k) [i..<length lines]"
    by (rule filter_cong) (simp_all add: covered_from_cursor [OF assms])
  also have "map ((!) lines) \<dots> = scan lines i []"
    by (rule scan_excised_ranges [symmetric])
  finally show ?thesis
    by (simp only: scan_append [where new_lines = "map ((!) lines) (filter ?keep [0..<i])"])
qed

section \<open>The excision of a content string\<close>

lemma scan_kept_in_lines: "l \<in> set (scan lines 0 []) \<Longrightarrow> l \<in> set lines"
  using list_emb_set [OF scan_subseq [of lines 0], of l] by auto

lemma match_here_Nil: "\<not> match_here []"
  by (simp add: match_here_def ascii_def)

lemma split_join_scan:
  "split_nl (join_nl (scan (split_nl content) 0 [])) =
   (if scan (split_nl content) 0 [] = [] then [[]] else scan (split_nl content) 0 [])"
proof (cases "scan (split_nl content) 0 [] = []")
  case True
  then show ?thesis
    by simp
next
  case False
  have "\<forall>l \<in> set (scan (split_nl content) 0 []). newline \<notin> set l"
    using scan_kept_in_lines split_nl_no_newline by blast
  with False show ?thesis
    by (simp add: split_join_nl)
qed

lemma fst_excise: "fst (excise content) = join_nl (scan (split_nl content) 0 [])"
  by (simp add: excise_def Let_def)

lemma snd_excise: "snd (excise content) = (join_nl (scan (split_nl content) 0 []) \<noteq> content)"
  by (simp add: excise_def Let_def)

lemma excise_clean:
  assumes "\<And>l. l \<in> set (split_nl content) \<Longrightarrow> \<not> re_search l"
  shows "excise content = (content, False)"
proof -
  have "scan (split_nl content) 0 [] = drop 0 (split_nl content)"
    by (rule scan_clean) (simp add: assms)
  then show ?thesis
    by (simp add: excise_def Let_def join_split_nl)
qed

lemma excise_output_no_match:
  "l \<in> set (split_nl (fst (excise content))) \<Longrightarrow> \<not> re_search l"
proof -
  assume l: "l \<in> set (split_nl (fst (excise content)))"
  show ?thesis
  proof (cases "scan (split_nl content) 0 [] = []")
    case True
    with l have "l = []"
      by (simp add: fst_excise)
    then show ?thesis
      by (simp add: match_here_Nil)
  next
    case False
    with l have "l \<in> set (scan (split_nl content) 0 [])"
      by (simp add: fst_excise split_join_scan)
    then show ?thesis
      by (rule scan_kept_no_match)
  qed
qed

subsection \<open>A match in a line is a match in the content\<close>

lemma dropWhile_append_left:
  "dropWhile P s \<noteq> [] \<Longrightarrow> dropWhile P (s @ t) = dropWhile P s @ t"
  by (induction s) auto

lemma strip_prefix_append:
  "strip_prefix p s = Some r \<Longrightarrow> strip_prefix p (s @ t) = Some (r @ t)"
  by (induction p s rule: strip_prefix.induct) (auto split: if_splits)

lemma strip_prefix_Nil: "strip_prefix p [] = Some r \<Longrightarrow> p = []"
  by (cases p) simp_all

lemma match_here_append:
  assumes "match_here s"
  shows "match_here (s @ t)"
proof -
  from assms obtain r where r: "strip_prefix (ascii ''console.'') (dropWhile is_space s) = Some r"
    by (auto simp: match_here_def split: option.splits)
  with assms obtain kw r' c rest
    where kw: "kw \<in> set [ascii ''log'', ascii ''debug'', ascii ''info'']"
      and r': "strip_prefix kw r = Some r'"
      and c: "dropWhile is_space r' = c # rest" "c = lparen"
    by (auto simp: match_here_def list_ex_iff split: option.splits list.splits)
  have "dropWhile is_space s \<noteq> []"
  proof
    assume "dropWhile is_space s = []"
    with r have "strip_prefix (ascii ''console.'') [] = Some r"
      by (simp only:)
    then have "ascii ''console.'' = []"
      by (rule strip_prefix_Nil)
    then show False
      by (simp add: ascii_def)
  qed
  then have "dropWhile is_space (s @ t) = dropWhile is_space s @ t"
    by (rule dropWhile_append_left)
  with r have 1: "strip_prefix (ascii ''console.'') (dropWhile is_space (s @ t)) = Some (r @ t)"
    by (simp add: strip_prefix_append)
  from r' have 2: "strip_prefix kw (r @ t) = Some (r' @ t)"
    by (rule strip_prefix_append)
  from c have 3: "dropWhile is_space (r' @ t) = c # rest @ t"
    by (simp add: dropWhile_append_left)
  from kw 2 3 c(2)
  have "list_ex
      (\<lambda>kw. case strip_prefix kw (r @ t) of
              None \<Rightarrow> False
            | Some r' \<Rightarrow> (case dropWhile is_space r' of [] \<Rightarrow> False | c # _ \<Rightarrow> c = lparen))
      [ascii ''log'', ascii ''debug'', ascii ''info'']"
    unfolding list_ex_iff by (intro bexI [of _ kw]) simp_all
  with 1 show ?thesis
    by (simp add: match_here_def)
qed

lemma re_search_append_right: "re_search s \<Longrightarrow> re_search (s @ t)"
proof (induction s)
  case Nil
  then show ?case
    by (simp add: match_here_Nil)
next
  case (Cons c cs)
  from Cons.prems have "match_here (c # cs) \<or> re_search cs"
    by simp
  then show ?case
  proof
    assume "match_here (c # cs)"
    then have "match_here ((c # cs) @ t)"
      by (rule match_here_append)
    then show ?thesis
      by simp
  next
    assume "re_search cs"
    then have "re_search (cs @ t)"
      by (rule Cons.IH)
    then show ?thesis
      by simp
  qed
qed

lemma re_search_append_left: "re_search s \<Longrightarrow> re_search (pre @ s)"
  by (induction pre) simp_all

lemma split_nl_hd_prefix: "\<exists>post. s = hd (split_nl s) @ post"
proof (induction s)
  case Nil
  show ?case
    by simp
next
  case (Cons c cs)
  then obtain post where "cs = hd (split_nl cs) @ post"
    by blast
  then have "c # cs = (c # hd (split_nl cs)) @ post"
    by simp
  then show ?case
    by (cases "c = newline") (auto simp: Let_def)
qed

lemma split_nl_substring: "l \<in> set (split_nl s) \<Longrightarrow> \<exists>pre post. s = pre @ l @ post"
proof (induction s arbitrary: l)
  case Nil
  then show ?case
    by simp
next
  case (Cons c cs)
  obtain p ps where ps: "split_nl cs = p # ps"
    using split_nl_not_Nil [of cs] by (cases "split_nl cs") auto
  have rest: "\<exists>pre post. c # cs = pre @ l @ post" if "l \<in> set (split_nl cs)"
  proof -
    from Cons.IH [OF that] obtain pre post where "cs = pre @ l @ post"
      by blast
    then have "c # cs = (c # pre) @ l @ post"
      by simp
    then show ?thesis
      by blast
  qed
  show ?case
  proof (cases "c = newline")
    case True
    with Cons.prems have "l = [] \<or> l \<in> set (split_nl cs)"
      by (simp add: Let_def)
    then show ?thesis
    proof
      assume "l = []"
      then have "c # cs = [] @ l @ (c # cs)"
        by simp
      then show ?thesis
        by blast
    qed (rule rest)
  next
    case False
    with Cons.prems ps have "l = c # p \<or> l \<in> set ps"
      by (simp add: Let_def)
    then show ?thesis
    proof
      assume l: "l = c # p"
      from split_nl_hd_prefix [of cs] ps obtain post where "cs = p @ post"
        by auto
      with l have "c # cs = [] @ l @ post"
        by simp
      then show ?thesis
        by blast
    next
      assume "l \<in> set ps"
      with ps show ?thesis
        by (intro rest) simp
    qed
  qed
qed

subsection \<open>Files without a statement that spans lines\<close>

lemma scan_single_lines:
  "(\<And>k. i \<le> k \<Longrightarrow> k < length lines \<Longrightarrow> re_search (lines ! k) \<Longrightarrow>
      paren_delta (lines ! k) \<le> 0) \<Longrightarrow>
   scan lines i [] = filter (\<lambda>l. \<not> re_search l) (drop i lines)"
proof (induction i rule: scan_cases_induct [where lines = lines])
  case (finished i)
  then show ?case
    by (simp add: scan_done)
next
  case (kept i)
  have "scan lines (i + 1) [] = filter (\<lambda>l. \<not> re_search l) (drop (i + 1) lines)"
    by (rule kept.IH) (simp add: kept.prems)
  moreover from kept.hyps have "drop i lines = lines ! i # drop (i + 1) lines"
    by (simp add: Cons_nth_drop_Suc)
  ultimately show ?case
    using kept.hyps by (simp add: scan_keep_Cons)
next
  case (dropped i)
  from dropped.prems [of i] dropped.hyps have "paren_delta (lines ! i) \<le> 0"
    by simp
  then have j: "snd (skip_statement lines (paren_delta (lines ! i)) i) = i"
    by (simp add: skip_statement_stop)
  have "scan lines (i + 1) [] = filter (\<lambda>l. \<not> re_search l) (drop (i + 1) lines)"
    using dropped.IH dropped.prems by (simp add: j)
  moreover from dropped.hyps have "drop i lines = lines ! i # drop (i + 1) lines"
    by (simp add: Cons_nth_drop_Suc)
  moreover have "scan lines i [] = scan lines (i + 1) []"
    using scan_drop [OF dropped.hyps, of "[]"] by (simp add: j)
  ultimately show ?case
    using dropped.hyps by simp
qed

section \<open>The splice\<close>

lemma slice_index_nonneg: "0 \<le> i \<Longrightarrow> slice_index n i = min n (nat i)"
  by (auto simp: slice_index_def)

lemma slice_to: "0 \<le> hi \<Longrightarrow> slice xs 0 hi = take (nat hi) xs"
proof -
  assume "0 \<le> hi"
  then have "slice xs 0 hi = take (min (length xs) (nat hi)) xs"
    by (simp add: slice_def Let_def slice_index_nonneg)
  also have "\<dots> = take (nat hi) xs"
    by (cases "nat hi \<le> length xs") (simp_all add: min_def)
  finally show ?thesis .
qed

lemma slice_from_nonneg: "0 \<le> lo \<Longrightarrow> slice_from xs lo = drop (nat lo) xs"
proof -
  assume "0 \<le> lo"
  then have "slice_from xs lo = drop (min (length xs) (nat lo)) xs"
    by (simp add: slice_from_def slice_index_nonneg)
  also have "\<dots> = drop (nat lo) xs"
    by (cases "nat lo \<le> length xs") (simp_all add: min_def)
  finally show ?thesis .
qed

lemma splice_nonneg:
  "0 \<le> s \<Longrightarrow> 0 \<le> e \<Longrightarrow> splice_lines lines s e block = take (nat s) lines @ block @ drop (nat e) lines"
  by (simp add: splice_lines_def slice_to slice_from_nonneg)

section \<open>The batch loop\<close>

lemma handler_prints:
  "remove_console_logs_try w p = Inl (e, w') \<Longrightarrow> \<not> unprintable w' (Error_processing p e) \<Longrightarrow>
   remove_console_logs w p = Inr (w'\<lparr>stdout := stdout w' @ [Error_processing p e]\<rparr>, False)"
  by (simp add: remove_console_logs_def print_def)

lemma handler_raises:
  "remove_console_logs_try w p = Inl (e, w') \<Longrightarrow> unprintable w' (Error_processing p e) \<Longrightarrow>
   remove_console_logs w p = Inl (PrintError, w')"
  by (simp add: remove_console_logs_def print_def)

lemma process_stops:
  "remove_console_logs w p = Inl x \<Longrightarrow> process w (p # rest) n = Inl x"
  by simp

lemma read_error_raised:
  "files w p = Unreadable e \<Longrightarrow> remove_console_logs_try w p = Inl (e, w)"
  by (simp add: remove_console_logs_try_def read_file_def)

section \<open>The claims\<close>

lemma last_index: "j < n \<Longrightarrow> n \<le> j + 1 \<Longrightarrow> j = n - (1::nat)"
  by simp



text \<open>
  C2: excising twice changes nothing the second time: on the content that a first
  excision produced, the second one reports no change and returns that content, since
  no line of it matches the pattern.
\<close>

theorem excise_idempotent:
  "snd (excise (fst (excise content))) = False \<and>
   fst (excise (fst (excise content))) = fst (excise content) \<and>
   \<not> list_ex re_search (split_nl (fst (excise content)))"
proof -
  have "excise (fst (excise content)) = (fst (excise content), False)"
    by (rule excise_clean) (rule excise_output_no_match)
  moreover have "\<not> list_ex re_search (split_nl (fst (excise content)))"
    using excise_output_no_match [of _ content] by (auto simp: list_ex_iff)
  ultimately show ?thesis
    by simp
qed

text \<open>
  C10: the lines that the excision keeps are a subsequence of the lines of the input:
  whole lines are deleted, no kept line is altered and none is added, so there are at
  most as many lines after as before. The new content is the join of the kept lines, and
  split again it gives the kept lines back (one empty line when nothing is kept).
\<close>

theorem kept_lines_subseq:
  "subseq (scan lines 0 []) lines \<and>
   length (scan lines 0 []) \<le> length lines \<and>
   fst (excise content) = join_nl (scan (split_nl content) 0 []) \<and>
   split_nl (fst (excise content)) =
     (if scan (split_nl content) 0 [] = [] then [[]] else scan (split_nl content) 0 []) \<and>
   length (split_nl (fst (excise content))) \<le> length (split_nl content)"
proof -
  have sub: "subseq (scan lines 0 []) lines" for lines
    using scan_subseq [of lines 0] by simp
  have len: "length (scan lines 0 []) \<le> length lines" for lines
    using sub [of lines] by (rule list_emb_length)
  have out: "fst (excise content) = join_nl (scan (split_nl content) 0 [])"
    by (rule fst_excise)
  have again: "split_nl (fst (excise content)) =
     (if scan (split_nl content) 0 [] = [] then [[]] else scan (split_nl content) 0 [])"
    by (simp only: out split_join_scan)
  have "1 \<le> length (split_nl content)"
    using split_nl_not_Nil [of content] by (cases "split_nl content") simp_all
  with len [of "split_nl content"]
  have "length (split_nl (fst (excise content))) \<le> length (split_nl content)"
    by (simp add: again)
  with sub len out again show ?thesis
    by (simp only: simp_thms)
qed

text \<open>
  C7: the excision reports a change exactly when the newline-join of the kept lines is
  not the original content, character for character. Content of which no line matches
  the pattern, and so content in which the pattern matches nowhere, comes back as it
  is with no change reported.
\<close>

theorem changed_iff_differs:
  "snd (excise content) = (join_nl (scan (split_nl content) 0 []) \<noteq> content) \<and>
   fst (excise content) = join_nl (scan (split_nl content) 0 []) \<and>
   (\<not> list_ex re_search (split_nl content) \<longrightarrow> excise content = (content, False)) \<and>
   (\<not> re_search content \<longrightarrow> excise content = (content, False))"
proof -
  have lines: "excise content = (content, False)" if "\<not> list_ex re_search (split_nl content)"
    using that by (intro excise_clean) (simp add: list_ex_iff)
  have "\<not> list_ex re_search (split_nl content)" if none: "\<not> re_search content"
  proof
    assume "list_ex re_search (split_nl content)"
    then obtain l where "l \<in> set (split_nl content)" and l: "re_search l"
      by (auto simp: list_ex_iff)
    then obtain pre post where "content = pre @ l @ post"
      using split_nl_substring by blast
    moreover from l have "re_search (pre @ l @ post)"
      by (intro re_search_append_left re_search_append_right)
    ultimately show False
      using none by simp
  qed
  with lines snd_excise [of content] fst_excise [of content] show ?thesis
    by blast
qed

theorem changed_iff_differs_witness:
  "\<not> list_ex re_search (split_nl (ascii ''nextStatement();'')) \<and>
   \<not> re_search (ascii ''nextStatement();'') \<and>
   excise (ascii ''nextStatement();'') = (ascii ''nextStatement();'', False)"
proof -
  have h1: "\<not> list_ex re_search (split_nl (ascii ''nextStatement();''))"
    by code_simp
  have h2: "\<not> re_search (ascii ''nextStatement();'')"
    by code_simp
  from changed_iff_differs [of "ascii ''nextStatement();''"] h1
  have "excise (ascii ''nextStatement();'') = (ascii ''nextStatement();'', False)"
    by blast
  with h1 h2 show ?thesis
    by blast
qed

text \<open>
  C3: when the scan stands on a matched line \<open>i\<close> and the balance of the lines \<open>i\<close> to
  \<open>m\<close> is positive for every later line \<open>m\<close> of the file, the second cursor stops at the
  last line, the scan ends there with the lines kept so far, so every line from \<open>i\<close> to
  the end is dropped. The functions are total: no error value exists for this case.
\<close>

theorem unclosed_statement_drops_rest:
  assumes "i < length lines" and "re_search (lines ! i)"
    and "\<forall>m. i \<le> m \<and> m < length lines \<longrightarrow> 0 < balance lines i m"
  shows "snd (skip_statement lines (paren_delta (lines ! i)) i) = length lines - 1 \<and>
    scan lines i kept = kept \<and>
    excised_ranges lines i = [(i, length lines - 1)]"
proof -
  let ?j = "snd (skip_statement lines (paren_delta (lines ! i)) i)"
  have ij: "i \<le> ?j"
    by (rule skip_statement_ge)
  have jn: "?j < length lines"
    using assms(1) by (rule skip_statement_lt)
  from ij jn assms(3) have "0 < balance lines i ?j"
    by blast
  with skip_statement_closed [of lines i] have "length lines \<le> ?j + 1"
    by simp
  with jn have j: "?j = length lines - 1"
    by (rule last_index)
  have "scan lines i kept = scan lines (?j + 1) kept"
    using assms(1,2) by (rule scan_drop)
  also have "\<dots> = kept"
    using \<open>length lines \<le> ?j + 1\<close> by (rule scan_done)
  finally have "scan lines i kept = kept" .
  moreover have "excised_ranges lines i = (i, ?j) # excised_ranges lines (?j + 1)"
    using assms(1,2) by (rule excised_ranges_drop)
  moreover have "excised_ranges lines (?j + 1) = []"
    using \<open>length lines \<le> ?j + 1\<close> by (rule excised_ranges_done)
  ultimately show ?thesis
    using j by (simp only: simp_thms)
qed

theorem unclosed_statement_drops_rest_witness:
  "1 < length unclosed_example \<and> re_search (unclosed_example ! 1) \<and>
   0 < balance unclosed_example 1 1 \<and> 0 < balance unclosed_example 1 2 \<and>
   0 < balance unclosed_example 1 3 \<and> length unclosed_example = 4 \<and>
   snd (skip_statement unclosed_example (paren_delta (unclosed_example ! 1)) 1) = 3 \<and>
   scan unclosed_example 1 [ascii ''first();''] = [ascii ''first();''] \<and>
   scan unclosed_example 0 [] = [ascii ''first();'']"
proof -
  have len: "length unclosed_example = 4"
    by code_simp
  then have h1: "1 < length unclosed_example"
    by simp
  have h2: "re_search (unclosed_example ! 1)"
    by code_simp
  have b: "0 < balance unclosed_example 1 1" "0 < balance unclosed_example 1 2"
    "0 < balance unclosed_example 1 3"
    by code_simp+
  have h3: "\<forall>m. 1 \<le> m \<and> m < length unclosed_example \<longrightarrow> 0 < balance unclosed_example 1 m"
  proof (intro allI impI)
    fix m
    assume "1 \<le> m \<and> m < length unclosed_example"
    with len have "m = 1 \<or> m = 2 \<or> m = 3"
      by auto
    with b show "0 < balance unclosed_example 1 m"
      by auto
  qed
  note t = unclosed_statement_drops_rest [OF h1 h2 h3, of "[ascii ''first();'']"]
  from t len have j: "snd (skip_statement unclosed_example (paren_delta (unclosed_example ! 1)) 1) = 3"
    by simp
  from t have sc: "scan unclosed_example 1 [ascii ''first();''] = [ascii ''first();'']"
    by (rule conjunct2 [THEN conjunct1])
  have all: "scan unclosed_example 0 [] = [ascii ''first();'']"
    by code_simp
  from len h1 h2 b j sc all show ?thesis
    by blast
qed

text \<open>
  C4, as the code has it: for every range \<open>[s, e]\<close> that the scan excises, the deltas of
  its lines sum to at most 0 (not always to 0: the last line of the range may close more
  than is open), unless the range ends at the last line of the file. The range starts
  at a matched line, and the sum over each shorter part \<open>[s, m]\<close> is positive.
\<close>

theorem excised_range_balance:
  assumes "(s, e) \<in> set (excised_ranges lines 0)"
  shows "s \<le> e \<and> e < length lines \<and> re_search (lines ! s) \<and>
    (\<forall>m. s \<le> m \<and> m < e \<longrightarrow> 0 < balance lines s m) \<and>
    (balance lines s e \<le> 0 \<or> e = length lines - 1)"
proof -
  from assms have bounds: "s \<le> e" "e < length lines"
    using excised_ranges_bounds [of s e lines 0] by simp_all
  from assms have start: "re_search (lines ! s)"
    and e: "e = snd (skip_statement lines (paren_delta (lines ! s)) s)"
    using excised_ranges_closed [of s e lines 0] by simp_all
  have "\<forall>m. s \<le> m \<and> m < e \<longrightarrow> 0 < balance lines s m"
    unfolding e by (simp add: skip_statement_positive)
  moreover have "balance lines s e \<le> 0 \<or> e = length lines - 1"
    using skip_statement_closed [of lines s] bounds(2) last_index [of e "length lines"]
    unfolding e by blast
  ultimately show ?thesis
    using bounds start by (simp only: simp_thms)
qed

theorem excised_range_balance_witness:
  "(0, 3) \<in> set (excised_ranges (split_nl multi_line_example) 0) \<and>
   balance (split_nl multi_line_example) 0 3 = 0 \<and>
   re_search (split_nl multi_line_example ! 0) \<and>
   0 < balance (split_nl multi_line_example) 0 1"
proof -
  have h: "(0, 3) \<in> set (excised_ranges (split_nl multi_line_example) 0)"
    by code_simp
  have z: "balance (split_nl multi_line_example) 0 3 = 0"
    by code_simp
  note t = excised_range_balance [OF h]
  from t have "re_search (split_nl multi_line_example ! 0)"
    by blast
  moreover from t have "0 < balance (split_nl multi_line_example) 0 1"
    by simp
  ultimately show ?thesis
    using h z by blast
qed

theorem excised_range_balance_counterexample:
  "(1, 1) \<in> set (excised_ranges overclosed_example 0) \<and>
   balance overclosed_example 1 1 = - 1 \<and>
   balance overclosed_example 1 1 \<noteq> 0 \<and>
   length overclosed_example = 3 \<and>
   1 \<noteq> length overclosed_example - 1"
  by code_simp

text \<open>
  C5, as the code has it: the output consists of exactly the lines that do not match
  the pattern and do not lie in an excised range (the continuation lines of a matched
  statement are dropped with it), verbatim and in their order in the input. When no
  matched line has a positive balance, these are all the lines that do not match.
\<close>

theorem unmatched_lines_kept:
  "scan lines 0 [] =
     map ((!) lines)
       (filter (\<lambda>k. \<not> re_search (lines ! k) \<and> \<not> covered (excised_ranges lines 0) k)
         [0..<length lines]) \<and>
   (\<not> list_ex (\<lambda>l. re_search l \<and> 0 < paren_delta l) lines \<longrightarrow>
      scan lines 0 [] = filter (\<lambda>l. \<not> re_search l) lines)"
proof -
  have "filter (\<lambda>k. \<not> covered (excised_ranges lines 0) k) [0..<length lines] =
      filter (\<lambda>k. \<not> re_search (lines ! k) \<and> \<not> covered (excised_ranges lines 0) k)
        [0..<length lines]"
  proof (rule filter_cong)
    fix k
    assume "k \<in> set [0..<length lines]"
    then have "k < length lines"
      by simp
    then show "(\<not> covered (excised_ranges lines 0) k) =
        (\<not> re_search (lines ! k) \<and> \<not> covered (excised_ranges lines 0) k)"
      using matched_covered [of 0 k lines] by auto
  qed simp
  then have "scan lines 0 [] =
     map ((!) lines)
       (filter (\<lambda>k. \<not> re_search (lines ! k) \<and> \<not> covered (excised_ranges lines 0) k)
         [0..<length lines])"
    using scan_excised_ranges [of lines 0] by (simp only:)
  moreover have "scan lines 0 [] = filter (\<lambda>l. \<not> re_search l) lines"
    if "\<not> list_ex (\<lambda>l. re_search l \<and> 0 < paren_delta l) lines"
  proof -
    have "scan lines 0 [] = filter (\<lambda>l. \<not> re_search l) (drop 0 lines)"
    proof (rule scan_single_lines)
      fix k
      assume "k < length lines" and "re_search (lines ! k)"
      with that show "paren_delta (lines ! k) \<le> 0"
        by (fastforce simp: list_ex_iff)
    qed
    then show ?thesis
      by simp
  qed
  ultimately show ?thesis
    by blast
qed

theorem unmatched_lines_kept_witness:
  "\<not> list_ex (\<lambda>l. re_search l \<and> 0 < paren_delta l) single_line_example \<and>
   filter (\<lambda>l. \<not> re_search l) single_line_example = [ascii ''before();'', ascii ''after();''] \<and>
   scan single_line_example 0 [] = [ascii ''before();'', ascii ''after();'']"
proof -
  have h: "\<not> list_ex (\<lambda>l. re_search l \<and> 0 < paren_delta l) single_line_example"
    by code_simp
  have f: "filter (\<lambda>l. \<not> re_search l) single_line_example
      = [ascii ''before();'', ascii ''after();'']"
    by code_simp
  from unmatched_lines_kept [of single_line_example] h
  have "scan single_line_example 0 [] = filter (\<lambda>l. \<not> re_search l) single_line_example"
    by blast
  with h f show ?thesis
    by simp
qed

theorem unmatched_lines_kept_counterexample:
  "2 < length (split_nl multi_line_example) \<and>
   split_nl multi_line_example ! 2 = ascii ''  y'' \<and>
   \<not> re_search (split_nl multi_line_example ! 2) \<and>
   split_nl multi_line_example ! 2 \<notin> set (scan (split_nl multi_line_example) 0 []) \<and>
   fst (excise multi_line_example) = ascii ''nextStatement();''"
  by code_simp

text \<open>
  C6, as the code has it: when the scan matches a line \<open>i\<close> whose own balance is at most
  0, the second cursor stays at \<open>i\<close>, the excised range is this one line, and the scan
  goes on at \<open>i + 1\<close> with the lines kept so far. This match removes no other line; the
  neighbours are kept or dropped on their own account: the following line is dropped
  exactly when it matches the pattern itself, and the preceding line is dropped exactly
  when an excised range ends at it (its own match, or the last line of a matched
  statement that spans lines).
\<close>

theorem single_line_excision:
  assumes "(i, e) \<in> set (excised_ranges lines 0)" and "paren_delta (lines ! i) \<le> 0"
  shows "e = i \<and> i < length lines \<and> re_search (lines ! i) \<and>
    snd (skip_statement lines (paren_delta (lines ! i)) i) = i \<and>
    scan lines 0 [] =
      scan lines i
        (map ((!) lines) (filter (\<lambda>k. \<not> covered (excised_ranges lines 0) k) [0..<i])) \<and>
    scan lines i kept = scan lines (i + 1) kept \<and>
    scan lines 0 [] =
      map ((!) lines)
        (filter (\<lambda>k. \<not> covered (excised_ranges lines 0) k) [0..<length lines]) \<and>
    covered (excised_ranges lines 0) i \<and>
    (i + 1 < length lines \<longrightarrow>
       covered (excised_ranges lines 0) (i + 1) = re_search (lines ! (i + 1))) \<and>
    (0 < i \<longrightarrow>
       covered (excised_ranges lines 0) (i - 1) =
         (\<exists>s. (s, i - 1) \<in> set (excised_ranges lines 0)))"
proof -
  let ?R = "excised_ranges lines 0"
  from assms(1) have i: "i < length lines"
    using excised_ranges_bounds [of i e lines 0] by simp
  from assms(1) have m: "re_search (lines ! i)"
    and e: "e = snd (skip_statement lines (paren_delta (lines ! i)) i)"
    using excised_ranges_closed [of i e lines 0] by simp_all
  from assms(2) have j: "snd (skip_statement lines (paren_delta (lines ! i)) i) = i"
    by (simp add: skip_statement_stop)
  have step: "scan lines i kept = scan lines (i + 1) kept"
    using scan_drop [OF i m, of kept] by (simp only: j)
  have from_i: "excised_ranges lines i = (i, i) # excised_ranges lines (i + 1)"
    using excised_ranges_drop [OF i m] by (simp only: j)
  have here: "covered ?R i"
    using matched_covered [of 0 i lines] i m by simp
  have after: "covered ?R (i + 1) = re_search (lines ! (i + 1))" if n: "i + 1 < length lines"
  proof -
    have "covered ?R (i + 1) = covered (excised_ranges lines i) (i + 1)"
      using assms(1) by (rule covered_from_cursor) simp
    also have "\<dots> = covered (excised_ranges lines (i + 1)) (i + 1)"
      by (simp add: from_i covered_Cons)
    also have "\<dots> = re_search (lines ! (i + 1))"
    proof (cases "re_search (lines ! (i + 1))")
      case True
      with n show ?thesis
        using matched_covered [of "i + 1" "i + 1" lines] by simp
    next
      case False
      with n have "excised_ranges lines (i + 1) = excised_ranges lines (i + 1 + 1)"
        by (intro excised_ranges_keep)
      with False show ?thesis
        using not_covered_before [of "i + 1" "i + 1 + 1" lines] by simp
    qed
    finally show ?thesis .
  qed
  have before: "covered ?R (i - 1) = (\<exists>s. (s, i - 1) \<in> set ?R)" if p: "0 < i"
  proof
    assume "covered ?R (i - 1)"
    then obtain s e' where r: "(s, e') \<in> set ?R" and s: "s \<le> i - 1" and e': "i - 1 \<le> e'"
      by (auto simp: covered_def list_ex_iff)
    from excised_ranges_split [OF assms(1)] obtain pre
      where pre: "?R = pre @ excised_ranges lines i" and ends: "\<forall>r \<in> set pre. snd r < i"
      by blast
    have "(s, e') \<notin> set (excised_ranges lines i)"
      using excised_ranges_bounds [of s e' lines i] s p by auto
    with r pre have "(s, e') \<in> set pre"
      by simp
    with ends have "e' < i"
      by fastforce
    with e' have "e' = i - 1"
      by simp
    with r show "\<exists>s. (s, i - 1) \<in> set ?R"
      by blast
  next
    assume "\<exists>s. (s, i - 1) \<in> set ?R"
    then obtain s where r: "(s, i - 1) \<in> set ?R"
      by blast
    then have "s \<le> i - 1"
      using excised_ranges_bounds [of s "i - 1" lines 0] by simp
    with r show "covered ?R (i - 1)"
      by (auto simp: covered_def list_ex_iff)
  qed
  have "e = i"
    by (simp only: e j)
  moreover note i m j scan_reaches_cursor [OF assms(1)] step scan_excised_ranges [of lines 0] here
  ultimately show ?thesis
    using after before by (simp only: simp_thms) blast
qed

theorem single_line_excision_witness:
  "(1, 1) \<in> set (excised_ranges single_line_example 0) \<and>
   paren_delta (single_line_example ! 1) \<le> 0 \<and>
   \<not> re_search (single_line_example ! 2) \<and>
   covered (excised_ranges single_line_example 0) 1 \<and>
   \<not> covered (excised_ranges single_line_example 0) 2 \<and>
   \<not> covered (excised_ranges single_line_example 0) 0 \<and>
   scan single_line_example 1 [ascii ''before();''] =
     scan single_line_example 2 [ascii ''before();''] \<and>
   scan single_line_example 0 [] = [ascii ''before();'', ascii ''after();'']"
proof -
  have h1: "(1, 1) \<in> set (excised_ranges single_line_example 0)"
    by code_simp
  have h2: "paren_delta (single_line_example ! 1) \<le> 0"
    by code_simp
  have n2: "\<not> re_search (single_line_example ! 2)"
    by code_simp
  have len: "length single_line_example = 3"
    by code_simp
  have none: "\<not> (\<exists>s. (s, 0) \<in> set (excised_ranges single_line_example 0))"
  proof -
    have "excised_ranges single_line_example 0 = [(1, 1)]"
      by code_simp
    then show ?thesis
      by simp
  qed
  have all: "scan single_line_example 0 [] = [ascii ''before();'', ascii ''after();'']"
    by code_simp
  note t = single_line_excision [OF h1 h2, of "[ascii ''before();'']"]
  note t5 = t [THEN conjunct2, THEN conjunct2, THEN conjunct2, THEN conjunct2, THEN conjunct2]
  note t8 = t5 [THEN conjunct2, THEN conjunct2]
  have c1: "covered (excised_ranges single_line_example 0) 1"
    by (rule t8 [THEN conjunct1])
  have c2: "\<not> covered (excised_ranges single_line_example 0) 2"
    using t8 [THEN conjunct2, THEN conjunct1] len n2 by (simp add: numeral_2_eq_2)
  have c0: "\<not> covered (excised_ranges single_line_example 0) 0"
    using t8 [THEN conjunct2, THEN conjunct2] none by simp
  have st: "scan single_line_example 1 [ascii ''before();''] =
     scan single_line_example 2 [ascii ''before();'']"
    using t5 [THEN conjunct1] by (simp add: numeral_2_eq_2)
  from h1 h2 n2 c1 c2 c0 st all show ?thesis
    by blast
qed

theorem single_line_excision_counterexample:
  "(1, 1) \<in> set (excised_ranges adjacent_matches_example 0) \<and>
   paren_delta (adjacent_matches_example ! 1) \<le> 0 \<and>
   adjacent_matches_example ! 2 = ascii ''console.log(2);'' \<and>
   adjacent_matches_example ! 2 \<notin> set (scan adjacent_matches_example 0 []) \<and>
   scan adjacent_matches_example 0 [] = [ascii ''a();'', ascii ''b();''] \<and>
   (3, 3) \<in> set (excised_ranges closing_line_example 0) \<and>
   paren_delta (closing_line_example ! 3) \<le> 0 \<and>
   closing_line_example ! 2 = ascii '');'' \<and>
   \<not> re_search (closing_line_example ! 2) \<and>
   closing_line_example ! 2 \<notin> set (scan closing_line_example 0 []) \<and>
   scan closing_line_example 0 [] = [ascii ''after();'']"
  by code_simp

text \<open>
  C8: the splice is the concatenation of \<open>lines[0:startIndex]\<close>, the replacement block
  and \<open>lines[endIndexExclusive:]\<close>; for indices that are not negative these are the
  first \<open>startIndex\<close> lines and the lines from \<open>endIndexExclusive\<close> on. On 20 lines, with
  the indices 5 and 10, the result has 20 - 5 + len(block) lines, its first 5 lines are
  the first 5 of the input and its last 10 lines are the last 10 of the input. The
  script uses the indices 77 and 783 and the one-element block \<open>[delegation]\<close>.
\<close>

theorem splice_concatenation:
  "splice_lines lines startIndex endIndexExclusive block =
     slice lines 0 startIndex @ block @ slice_from lines endIndexExclusive \<and>
   (0 \<le> startIndex \<and> 0 \<le> endIndexExclusive \<longrightarrow>
      splice_lines lines startIndex endIndexExclusive block =
        take (nat startIndex) lines @ block @ drop (nat endIndexExclusive) lines) \<and>
   (length lines = 20 \<longrightarrow>
      length (splice_lines lines 5 10 block) = 20 - 5 + length block \<and>
      take 5 (splice_lines lines 5 10 block) = take 5 lines \<and>
      drop (length (splice_lines lines 5 10 block) - 10) (splice_lines lines 5 10 block) =
        drop 10 lines \<and>
      length (drop 10 lines) = 10) \<and>
   extract_guest_method lines = take 77 lines @ [delegation] @ drop 783 lines"
proof -
  have general: "splice_lines lines s e block = take (nat s) lines @ block @ drop (nat e) lines"
    if "0 \<le> s \<and> 0 \<le> e" for s e block
    using that by (simp add: splice_nonneg)
  have five_ten: "splice_lines lines 5 10 block = take 5 lines @ block @ drop 10 lines"
    using general [of 5 10 block] by simp
  have twenty: "length (splice_lines lines 5 10 block) = 20 - 5 + length block \<and>
      take 5 (splice_lines lines 5 10 block) = take 5 lines \<and>
      drop (length (splice_lines lines 5 10 block) - 10) (splice_lines lines 5 10 block) =
        drop 10 lines \<and>
      length (drop 10 lines) = 10"
    if "length lines = 20"
    using that by (simp add: five_ten)
  have "extract_guest_method lines = take 77 lines @ [delegation] @ drop 783 lines"
    using splice_nonneg [of 77 783 lines "[delegation]"] by (simp add: extract_guest_method_def)
  with general [of startIndex endIndexExclusive block] twenty show ?thesis
    by (simp add: splice_lines_def)
qed

theorem splice_concatenation_witness:
  "length twenty_lines = 20 \<and>
   length (splice_lines twenty_lines 5 10 stub_block) = 20 - 5 + length stub_block \<and>
   take 5 (splice_lines twenty_lines 5 10 stub_block) = take 5 twenty_lines \<and>
   drop (length (splice_lines twenty_lines 5 10 stub_block) - 10)
     (splice_lines twenty_lines 5 10 stub_block) = drop 10 twenty_lines \<and>
   splice_lines twenty_lines 5 10 stub_block =
     take (nat 5) twenty_lines @ stub_block @ drop (nat 10) twenty_lines"
proof -
  have len: "length twenty_lines = 20"
    by code_simp
  note t = splice_concatenation [of twenty_lines 5 10 stub_block]
  from t [THEN conjunct2, THEN conjunct1]
  have "splice_lines twenty_lines 5 10 stub_block =
     take (nat 5) twenty_lines @ stub_block @ drop (nat 10) twenty_lines"
    by simp
  moreover from t len
  have "length (splice_lines twenty_lines 5 10 stub_block) = 20 - 5 + length stub_block \<and>
      take 5 (splice_lines twenty_lines 5 10 stub_block) = take 5 twenty_lines \<and>
      drop (length (splice_lines twenty_lines 5 10 stub_block) - 10)
        (splice_lines twenty_lines 5 10 stub_block) = drop 10 twenty_lines"
    by blast
  ultimately show ?thesis
    using len by blast
qed

text \<open>
  C9, on the code: an error raised while a file is read or written is caught by the
  \<open>except\<close> clause, which prints a message naming the path and returns False, and the
  loop goes on: in the run over \<open>path_a\<close>, \<open>path_b\<close> (which cannot be read) and \<open>path_c\<close>
  the first and the third file are cleaned and the count is 2. But the clause's own
  \<open>print\<close> is not guarded: with \<open>bad_path\<close> in the place of \<open>path_b\<close>, whose message
  cannot be printed, the error leaves \<open>remove_console_logs\<close> and ends the run of
  \<open>main\<close>; the third file is never processed and no count is printed. The same
  happens at the first file that cannot be read when the standard output cannot encode
  the messages.
\<close>

theorem handler_print_failure_stops_run:
  "(case process example_world [path_a, path_b, path_c] 0 of
      Inl x \<Rightarrow> False
    | Inr (w, files_cleaned) \<Rightarrow>
        files_cleaned = 2 \<and>
        files w path_a = Text (ascii ''keep();'') \<and>
        files w path_c = Text (ascii ''stay();'') \<and>
        stdout w = [Cleaned path_a, Error_processing path_b FileAccessError, Cleaned path_c]) \<and>
   read_file example_world bad_path = Inl (FileAccessError, example_world) \<and>
   (case remove_console_logs example_world bad_path of
      Inl (e, w) \<Rightarrow> e = PrintError \<and> stdout w = []
    | Inr r \<Rightarrow> False) \<and>
   (case process example_world [path_a, bad_path, path_c] 0 of
      Inl (e, w) \<Rightarrow>
        e = PrintError \<and>
        files w path_a = Text (ascii ''keep();'') \<and>
        files w path_c = Text content_c \<and>
        stdout w = [Cleaned path_a]
    | Inr r \<Rightarrow> False) \<and>
   candidates example_walk = [path_a, bad_path, path_c] \<and>
   (case main example_world example_walk of
      Inl (e, w) \<Rightarrow> e = PrintError \<and> stdout w = [Cleaned path_a]
    | Inr w \<Rightarrow> False) \<and>
   (case process ascii_stdout_world [path_b, path_c] 0 of
      Inl (e, w) \<Rightarrow> e = PrintError \<and> files w path_c = Text content_c \<and> stdout w = []
    | Inr r \<Rightarrow> False)"
proof -
  have a: "fst (excise content_a) = ascii ''keep();''"
    by code_simp
  have c: "fst (excise content_c) = ascii ''stay();''"
    by code_simp
  have ne: "ascii ''keep();'' \<noteq> content_a" "ascii ''stay();'' \<noteq> content_c"
    by code_simp+
  have paths: "path_a \<noteq> path_b" "path_a \<noteq> path_c" "path_b \<noteq> path_c" "path_a \<noteq> bad_path"
    "bad_path \<noteq> path_c" "path_c \<noteq> path_a" "path_c \<noteq> path_b" "path_c \<noteq> bad_path"
    by code_simp+
  have sur: "\<not> has_surrogate path_a" "\<not> has_surrogate path_b" "\<not> has_surrogate path_c"
    "has_surrogate bad_path"
    by code_simp+
  have cand: "candidates example_walk = [path_a, bad_path, path_c]"
    by code_simp
  note defs = example_world_def remove_console_logs_def remove_console_logs_try_def
    read_file_def write_file_def print_def surrogate_message_def Let_def
  have good: "(case process example_world [path_a, path_b, path_c] 0 of
      Inl x \<Rightarrow> False
    | Inr (w, files_cleaned) \<Rightarrow>
        files_cleaned = 2 \<and>
        files w path_a = Text (ascii ''keep();'') \<and>
        files w path_c = Text (ascii ''stay();'') \<and>
        stdout w = [Cleaned path_a, Error_processing path_b FileAccessError, Cleaned path_c])"
    using paths by (simp add: defs a c ne sur)
  have rd: "read_file example_world bad_path = Inl (FileAccessError, example_world)"
    using paths by (simp add: read_file_def example_world_def)
  have one: "(case remove_console_logs example_world bad_path of
      Inl (e, w) \<Rightarrow> e = PrintError \<and> stdout w = []
    | Inr r \<Rightarrow> False)"
    using paths by (simp add: defs sur)
  have bad: "(case process example_world [path_a, bad_path, path_c] 0 of
      Inl (e, w) \<Rightarrow>
        e = PrintError \<and>
        files w path_a = Text (ascii ''keep();'') \<and>
        files w path_c = Text content_c \<and>
        stdout w = [Cleaned path_a]
    | Inr r \<Rightarrow> False)"
    using paths by (simp add: defs a c ne sur)
  from bad obtain w
    where pw: "process example_world [path_a, bad_path, path_c] 0 = Inl (PrintError, w)"
      and out: "stdout w = [Cleaned path_a]"
    by (auto split: sum.splits prod.splits)
  have "main example_world example_walk = Inl (PrintError, w)"
    unfolding main_def cand pw by simp
  with out have stop: "(case main example_world example_walk of
      Inl (e, w) \<Rightarrow> e = PrintError \<and> stdout w = [Cleaned path_a]
    | Inr w \<Rightarrow> False)"
    by simp
  have mute: "(case process ascii_stdout_world [path_b, path_c] 0 of
      Inl (e, w) \<Rightarrow> e = PrintError \<and> files w path_c = Text content_c \<and> stdout w = []
    | Inr r \<Rightarrow> False)"
    using paths by (simp add: defs ascii_stdout_world_def)
  from good rd one bad cand stop mute show ?thesis
    by (intro conjI)
qed

end
